theory Spec2Isabelle
  imports Main
begin

section \<open>JavaScript strings and values\<close>

text \<open>
  The component \<^verbatim>\<open>RedisCommandEditor.tsx\<close> works on JavaScript strings and on the loosely
  typed values that the backend call hands back. A string is modelled as a \<^typ>\<open>string\<close>
  whose characters stand for code units below 256.
\<close>

definition nl :: char where
  "nl = CHR 0x0A"

definition dq :: char where
  "dq = CHR 0x22"

definition bs :: char where
  "bs = CHR 0x5C"

text \<open>
  \<^verbatim>\<open>String.prototype.trim\<close> strips white space and line terminators from both ends. Among the
  code units below 256 these are tab, line feed, vertical tab, form feed, carriage return,
  space and the no-break space.
\<close>

definition is_ws :: "char \<Rightarrow> bool" where
  "is_ws c = (c \<in> {CHR 0x09, CHR 0x0A, CHR 0x0B, CHR 0x0C, CHR 0x0D, CHR 0x20, CHR 0xA0})"

definition trim :: "string \<Rightarrow> string" where
  "trim s = rev (dropWhile is_ws (rev (dropWhile is_ws s)))"

text \<open>\<^verbatim>\<open>s.startsWith(p)\<close>\<close>

definition startsWith :: "string \<Rightarrow> string \<Rightarrow> bool" where
  "startsWith s p = (take (length p) s = p)"

text \<open>
  \<^verbatim>\<open>s.split(d)\<close> for a one-character separator: the pieces between the separators, so the
  empty string gives one empty piece and a trailing separator gives a trailing empty piece.
\<close>

fun split :: "char \<Rightarrow> string \<Rightarrow> string list" where
  "split d [] = [[]]"
| "split d (c # cs) =
     (if c = d then [] # split d cs
      else (case split d cs of [] \<Rightarrow> [[c]] | l # ls \<Rightarrow> (c # l) # ls))"

text \<open>\<^verbatim>\<open>parts.join(sep)\<close>\<close>

fun join :: "string \<Rightarrow> string list \<Rightarrow> string" where
  "join sep [] = []"
| "join sep [p] = p"
| "join sep (p # q # ps) = p @ sep @ join sep (q # ps)"

subsection \<open>Numbers and their string form\<close>

text \<open>The decimal numeral of a natural number and of an integer.\<close>

definition digit_char :: "nat \<Rightarrow> char" where
  "digit_char n = ''0123456789'' ! (n mod 10)"

fun dec_nat :: "nat \<Rightarrow> string" where
  "dec_nat n = (if n < 10 then [digit_char n] else dec_nat (n div 10) @ [digit_char n])"

declare dec_nat.simps [simp del]

definition decimal :: "int \<Rightarrow> string" where
  "decimal n = (if n < 0 then CHR ''-'' # dec_nat (nat (- n)) else dec_nat (nat n))"

text \<open>
  A JavaScript number is a double. An integer reaches the component as the double
  nearest to it: 53 significant bits, a tie going to the even significand. \<open>to_double c\<close>
  is the value of that double for a natural number \<open>c\<close>; a result of \<open>2\<^sup>1\<^sup>0\<^sup>2\<^sup>4\<close> or more
  stands for \<^verbatim>\<open>Infinity\<close>.
\<close>

fun bit_length :: "nat \<Rightarrow> nat" where
  "bit_length n = (if n = 0 then 0 else Suc (bit_length (n div 2)))"

declare bit_length.simps [simp del]

definition to_double :: "nat \<Rightarrow> nat" where
  "to_double c =
     (if c < 2 ^ 53 then c
      else
        (let q = 2 ^ (bit_length c - 53); m = c div q; r = c mod q
         in if 2 * r < q then m * q
            else if q < 2 * r then (m + 1) * q
            else if even m then m * q
            else (m + 1) * q))"

text \<open>
  \<^verbatim>\<open>Number::toString\<close> of the language standard, for a double \<open>x\<close> whose value is a natural
  number: the digits are those of the number with the fewest significant digits that
  still reads back as \<open>x\<close>, the one closest to \<open>x\<close> where there are several. The search
  goes through the powers of ten from the largest down: \<open>lo\<close> and \<open>hi\<close> are the multiples
  of the power next to \<open>x\<close>. Up to 21 digits the number is written out in full, beyond
  that in exponent form.
\<close>

fun shortest_digits :: "nat \<Rightarrow> nat \<Rightarrow> nat" where
  "shortest_digits x 0 = x"
| "shortest_digits x (Suc j) =
     (let p = 10 ^ Suc j; lo = (x div p) * p; hi = lo + p;
          ok_lo = (0 < lo \<and> to_double lo = x); ok_hi = (to_double hi = x)
      in if ok_lo \<and> ok_hi then
           (if x - lo < hi - x then lo
            else if hi - x < x - lo then hi
            else if even (lo div p) then lo
            else hi)
         else if ok_lo then lo
         else if ok_hi then hi
         else shortest_digits x j)"

fun mantissa :: "string \<Rightarrow> string" where
  "mantissa [] = []"
| "mantissa [d] = [d]"
| "mantissa (d # ds) = d # CHR ''.'' # ds"

definition exponent_form :: "nat \<Rightarrow> string" where
  "exponent_form c =
     mantissa (rev (dropWhile (\<lambda>d. d = CHR ''0'') (rev (dec_nat c))))
     @ ''e+'' @ dec_nat (length (dec_nat c) - 1)"

definition double_to_string :: "nat \<Rightarrow> string" where
  "double_to_string x =
     (if 2 ^ 1024 \<le> x then ''Infinity''
      else
        (let c = shortest_digits x (length (dec_nat x))
         in if c < 10 ^ 21 then dec_nat c else exponent_form c))"

text \<open>
  The string form of the number that stands for the integer \<open>n\<close> (what a template
  literal and \<^verbatim>\<open>String\<close> produce for it), and whether that number is finite.
\<close>

definition number_to_string :: "int \<Rightarrow> string" where
  "number_to_string n =
     (if n < 0 then CHR ''-'' # double_to_string (to_double (nat (- n)))
      else double_to_string (to_double (nat n)))"

definition is_finite_number :: "int \<Rightarrow> bool" where
  "is_finite_number n = (to_double (nat \<bar>n\<bar>) < 2 ^ 1024)"

subsection \<open>Values\<close>

text \<open>
  A value that crosses the call boundary as JSON is \<^verbatim>\<open>null\<close>, a boolean, a number, a string,
  an array or an object; \<^verbatim>\<open>undefined\<close> is what the component sees for an absent value. The
  properties of an object are kept in their enumeration order. \<open>Num n\<close> stands for the
  number that the integer \<open>n\<close> arrives as, the double nearest to \<open>n\<close>; this is \<open>n\<close> itself
  whenever \<open>n\<close> is a double, in particular for every \<open>n\<close> of magnitude below \<open>2\<^sup>5\<^sup>3\<close>.
  Numbers with a fraction are not modelled.
\<close>

datatype jsval =
    Null
  | Undefined
  | Bool bool
  | Num int
  | Str string
  | Arr "jsval list"
  | Obj "(string \<times> jsval) list"

text \<open>\<^verbatim>\<open>typeof v\<close> and \<^verbatim>\<open>Array.isArray(v)\<close>\<close>

fun js_typeof :: "jsval \<Rightarrow> string" where
  "js_typeof Null = ''object''"
| "js_typeof Undefined = ''undefined''"
| "js_typeof (Bool b) = ''boolean''"
| "js_typeof (Num n) = ''number''"
| "js_typeof (Str s) = ''string''"
| "js_typeof (Arr xs) = ''object''"
| "js_typeof (Obj kvs) = ''object''"

fun isArray :: "jsval \<Rightarrow> bool" where
  "isArray (Arr xs) = True"
| "isArray v = False"

subsection \<open>The built-in \<^verbatim>\<open>JSON.stringify(value, null, 2)\<close>\<close>

text \<open>
  \<^verbatim>\<open>QuoteJSONString\<close> of the language standard: the two-character escapes, a
  \<^verbatim>\<open>\u00XX\<close> escape for the other control characters, every other character as it is.
\<close>

definition hex_digit :: "nat \<Rightarrow> char" where
  "hex_digit n = ''0123456789abcdef'' ! (n mod 16)"

definition json_escape :: "char \<Rightarrow> string" where
  "json_escape c =
     (if c = CHR 0x08 then [bs, CHR ''b'']
      else if c = CHR 0x09 then [bs, CHR ''t'']
      else if c = CHR 0x0A then [bs, CHR ''n'']
      else if c = CHR 0x0C then [bs, CHR ''f'']
      else if c = CHR 0x0D then [bs, CHR ''r'']
      else if c = CHR 0x22 then [bs, dq]
      else if c = CHR 0x5C then [bs, bs]
      else if of_char c < (32 :: nat)
        then [bs, CHR ''u'', CHR ''0'', CHR ''0'', hex_digit (of_char c div 16), hex_digit (of_char c)]
      else [c])"

definition json_quote :: "string \<Rightarrow> string" where
  "json_quote s = dq # concat (map json_escape s) @ [dq]"

text \<open>
  \<^verbatim>\<open>SerializeJSONProperty\<close> with the gap of two spaces. A number that is not finite is
  written \<^verbatim>\<open>null\<close>. An array element that is
  \<^verbatim>\<open>undefined\<close> is written \<^verbatim>\<open>null\<close>; an object property that is \<^verbatim>\<open>undefined\<close> is left out,
  which the filter does before the properties are serialized.
\<close>

fun serializeJSONProperty :: "string \<Rightarrow> jsval \<Rightarrow> string" where
  "serializeJSONProperty indent Null = ''null''"
| "serializeJSONProperty indent Undefined = ''null''"
| "serializeJSONProperty indent (Bool b) = (if b then ''true'' else ''false'')"
| "serializeJSONProperty indent (Num n) =
     (if is_finite_number n then number_to_string n else ''null'')"
| "serializeJSONProperty indent (Str s) = json_quote s"
| "serializeJSONProperty indent (Arr xs) =
     (let stepback = indent; indent = indent @ ''  '';
          partial = map (serializeJSONProperty indent) xs
      in if partial = [] then ''[]''
         else ''['' @ [nl] @ indent @ join ('','' @ [nl] @ indent) partial
              @ [nl] @ stepback @ '']'')"
| "serializeJSONProperty indent (Obj kvs) =
     (let stepback = indent; indent = indent @ ''  '';
          partial = map (\<lambda>(k, v). json_quote k @ '': '' @ serializeJSONProperty indent v)
                        (filter (\<lambda>(k, v). v \<noteq> Undefined) kvs)
      in if partial = [] then ''{}''
         else ''{'' @ [nl] @ indent @ join ('','' @ [nl] @ indent) partial
              @ [nl] @ stepback @ ''}'')"

definition JSON_stringify_2 :: "jsval \<Rightarrow> string" where
  "JSON_stringify_2 v = serializeJSONProperty [] v"

subsection \<open>The conversion \<^verbatim>\<open>String(value)\<close>\<close>

text \<open>
  An array is joined with commas, \<^verbatim>\<open>null\<close> and \<^verbatim>\<open>undefined\<close> elements giving empty pieces;
  a plain object gives \<^verbatim>\<open>[object Object]\<close>.
\<close>

fun js_String :: "jsval \<Rightarrow> string" where
  "js_String Null = ''null''"
| "js_String Undefined = ''undefined''"
| "js_String (Bool b) = (if b then ''true'' else ''false'')"
| "js_String (Num n) = number_to_string n"
| "js_String (Str s) = s"
| "js_String (Arr xs) =
     join '','' (map (\<lambda>x. if x = Null \<or> x = Undefined then [] else js_String x) xs)"
| "js_String (Obj kvs) = ''[object Object]''"

section \<open>The reply formatter\<close>

text \<open>
  \<^verbatim>\<open>formatResult\<close>, lines 96 to 116. The equations are tried in the order of the source's
  tests: \<^verbatim>\<open>null\<close> or \<^verbatim>\<open>undefined\<close>, a string, a number, an array, any other object, and
  last the fall-through \<^verbatim>\<open>String(result)\<close>.
\<close>

function (sequential) formatResult :: "jsval \<Rightarrow> string" where
  "formatResult Null = ''(nil)''"
| "formatResult Undefined = ''(nil)''"
| "formatResult (Str s) = [dq] @ s @ [dq]"
| "formatResult (Num n) = ''(integer) '' @ number_to_string n"
| "formatResult (Arr xs) =
     (if length xs = 0 then ''(empty array)''
      else join [nl]
             (map (\<lambda>(index, item). number_to_string (int index + 1) @ '') '' @ formatResult item)
                  (enumerate 0 xs)))"
| "formatResult (Obj kvs) = JSON_stringify_2 (Obj kvs)"
| "formatResult v = js_String v"
  by pat_completeness auto
termination
proof (relation "measure size")
  fix xs :: "jsval list" and x :: "nat \<times> jsval" and index item
  assume "x \<in> set (enumerate 0 xs)" and "(index, item) = x"
  then have "item \<in> set xs"
    by (auto simp: in_set_enumerate_eq)
  then have "size item \<le> size_list size xs"
    by (simp add: size_list_estimation')
  then show "(item, Arr xs) \<in> measure size"
    by simp
qed simp

subsection \<open>The formatter on a bounded call stack\<close>

text \<open>
  The call stack of the engine is finite, and neither \<^verbatim>\<open>formatResult\<close> nor
  \<^verbatim>\<open>JSON.stringify\<close> limits how deep it descends. \<open>stack\<close> is the number of nested
  activations that the stack still admits when the function is entered, one activation
  being counted for each level of the value that is descended into. With no room left
  the call raises \<^verbatim>\<open>RangeError\<close>; nothing in the formatter catches it, so it ends the whole
  call. The equations are those of \<^const>\<open>formatResult\<close> and
  \<^const>\<open>serializeJSONProperty\<close>, with this bookkeeping added.
\<close>

datatype js_error = RangeError

text \<open>
  The results of a callback mapped over a list: the first error ends the mapping.
\<close>

fun sequence_results :: "(js_error + 'a) list \<Rightarrow> js_error + 'a list" where
  "sequence_results [] = Inr []"
| "sequence_results (r # rs) =
     (case r of
        Inl e \<Rightarrow> Inl e
      | Inr v \<Rightarrow> (case sequence_results rs of Inl e \<Rightarrow> Inl e | Inr vs \<Rightarrow> Inr (v # vs)))"

fun serializeJSONProperty_stack :: "nat \<Rightarrow> string \<Rightarrow> jsval \<Rightarrow> js_error + string" where
  "serializeJSONProperty_stack 0 indent v = Inl RangeError"
| "serializeJSONProperty_stack (Suc k) indent Null = Inr ''null''"
| "serializeJSONProperty_stack (Suc k) indent Undefined = Inr ''null''"
| "serializeJSONProperty_stack (Suc k) indent (Bool b) = Inr (if b then ''true'' else ''false'')"
| "serializeJSONProperty_stack (Suc k) indent (Num n) =
     Inr (if is_finite_number n then number_to_string n else ''null'')"
| "serializeJSONProperty_stack (Suc k) indent (Str s) = Inr (json_quote s)"
| "serializeJSONProperty_stack (Suc k) indent (Arr xs) =
     (let stepback = indent; indent = indent @ ''  ''
      in case sequence_results (map (serializeJSONProperty_stack k indent) xs) of
           Inl e \<Rightarrow> Inl e
         | Inr partial \<Rightarrow>
             Inr (if partial = [] then ''[]''
                  else ''['' @ [nl] @ indent @ join ('','' @ [nl] @ indent) partial
                       @ [nl] @ stepback @ '']''))"
| "serializeJSONProperty_stack (Suc k) indent (Obj kvs) =
     (let stepback = indent; indent = indent @ ''  ''
      in case sequence_results
                (map (\<lambda>(key, v).
                        case serializeJSONProperty_stack k indent v of
                          Inl e \<Rightarrow> Inl e
                        | Inr str \<Rightarrow> Inr (json_quote key @ '': '' @ str))
                     (filter (\<lambda>(key, v). v \<noteq> Undefined) kvs)) of
           Inl e \<Rightarrow> Inl e
         | Inr partial \<Rightarrow>
             Inr (if partial = [] then ''{}''
                  else ''{'' @ [nl] @ indent @ join ('','' @ [nl] @ indent) partial
                       @ [nl] @ stepback @ ''}''))"

fun formatResult_stack :: "nat \<Rightarrow> jsval \<Rightarrow> js_error + string" where
  "formatResult_stack 0 v = Inl RangeError"
| "formatResult_stack (Suc k) Null = Inr ''(nil)''"
| "formatResult_stack (Suc k) Undefined = Inr ''(nil)''"
| "formatResult_stack (Suc k) (Str s) = Inr ([dq] @ s @ [dq])"
| "formatResult_stack (Suc k) (Num n) = Inr (''(integer) '' @ number_to_string n)"
| "formatResult_stack (Suc k) (Arr xs) =
     (if length xs = 0 then Inr ''(empty array)''
      else
        (case sequence_results
                (map (\<lambda>(index, item).
                        case formatResult_stack k item of
                          Inl e \<Rightarrow> Inl e
                        | Inr str \<Rightarrow> Inr (number_to_string (int index + 1) @ '') '' @ str))
                     (enumerate 0 xs)) of
           Inl e \<Rightarrow> Inl e
         | Inr items \<Rightarrow> Inr (join [nl] items)))"
| "formatResult_stack (Suc k) (Obj kvs) = serializeJSONProperty_stack (Suc k) [] (Obj kvs)"
| "formatResult_stack (Suc k) v = Inr (js_String v)"

section \<open>The batch handler\<close>

text \<open>One entry of the result list (\<^verbatim>\<open>interface CommandResult\<close>).\<close>

record CommandResult =
  command :: string
  result :: jsval
  error :: "string option"
  timestamp :: int

text \<open>
  What the awaited backend call settles to: it resolves to an object with the fields
  \<^verbatim>\<open>success\<close>, \<^verbatim>\<open>data\<close> and \<^verbatim>\<open>message\<close>, or it rejects with a thrown value \<^verbatim>\<open>e\<close>, of which the
  handler reads \<^verbatim>\<open>e?.message\<close> and \<^verbatim>\<open>String(e)\<close>.
\<close>

record QueryResult =
  success :: bool
  data :: jsval
  message :: string

record thrown =
  e_message :: "string option"
  e_String :: string

datatype settled = Resolved QueryResult | Rejected thrown

text \<open>\<^verbatim>\<open>e?.message || String(e)\<close>: an absent or empty message falls through to the string form.\<close>

definition caught_message :: "thrown \<Rightarrow> string" where
  "caught_message e =
     (case e_message e of
        None \<Rightarrow> e_String e
      | Some m \<Rightarrow> if m \<noteq> [] then m else e_String e)"

text \<open>
  Everything outside the component: the state \<open>world\<close> of backend and clock, which the
  call \<^verbatim>\<open>RedisExecuteCommand\<close> advances and \<^verbatim>\<open>Date.now\<close> reads; the log \<open>invoked\<close> of the command
  strings handed to \<^verbatim>\<open>RedisExecuteCommand\<close>, oldest first; and the texts shown by
  \<^verbatim>\<open>message.warning\<close>.
\<close>

record 'w outside =
  world :: 'w
  invoked :: "string list"
  warnings :: "string list"

text \<open>The React state of the component: editor text, result list and busy flag.\<close>

record editor =
  command_text :: string
  results :: "CommandResult list"
  loading :: bool

text \<open>
  The warning of line 56, as the bytes of its UTF-8 form.
\<close>

definition please_enter_command :: string where
  "please_enter_command =
     [CHR 0xE8, CHR 0xAF, CHR 0xB7, CHR 0xE8, CHR 0xBE, CHR 0x93, CHR 0xE5, CHR 0x85, CHR 0xA5,
      CHR 0xE5, CHR 0x91, CHR 0xBD, CHR 0xE4, CHR 0xBB, CHR 0xA4]"

text \<open>The filter of line 61 on one line, and the split into lines with that filter.\<close>

definition keep_line :: "string \<Rightarrow> bool" where
  "keep_line c = (trim c \<noteq> [] \<and> \<not> startsWith (trim c) ''//'' \<and> \<not> startsWith (trim c) ''#'')"

definition commands_of :: "string \<Rightarrow> string list" where
  "commands_of cmdToExecute = filter keep_line (split nl cmdToExecute)"

text \<open>
  The loop of lines 66 to 86. Each command is trimmed; an empty one is skipped; otherwise
  the backend is called once and one entry is pushed, whether the call resolved or
  rejected, with the clock read when the entry is built.
\<close>

fun run_commands ::
  "('c \<Rightarrow> string \<Rightarrow> 'w \<Rightarrow> settled \<times> 'w) \<Rightarrow> ('w \<Rightarrow> int) \<Rightarrow> 'c \<Rightarrow> string list
     \<Rightarrow> CommandResult list \<times> 'w outside \<Rightarrow> CommandResult list \<times> 'w outside" where
  "run_commands RedisExecuteCommand Date_now config [] (newResults, out) = (newResults, out)"
| "run_commands RedisExecuteCommand Date_now config (cmd # commands) (newResults, out) =
     (let trimmedCmd = trim cmd in
      if trimmedCmd = [] then
        run_commands RedisExecuteCommand Date_now config commands (newResults, out)
      else
        (case RedisExecuteCommand config trimmedCmd (world out) of
           (Resolved res, w) \<Rightarrow>
             run_commands RedisExecuteCommand Date_now config commands
               (newResults @
                  [\<lparr>command = trimmedCmd,
                    result = (if success res then data res else Null),
                    error = (if success res then None else Some (message res)),
                    timestamp = Date_now w\<rparr>],
                out\<lparr>world := w, invoked := invoked out @ [trimmedCmd]\<rparr>)
         | (Rejected e, w) \<Rightarrow>
             run_commands RedisExecuteCommand Date_now config commands
               (newResults @
                  [\<lparr>command = trimmedCmd,
                    result = Null,
                    error = Some (caught_message e),
                    timestamp = Date_now w\<rparr>],
                out\<lparr>world := w, invoked := invoked out @ [trimmedCmd]\<rparr>)))"

text \<open>
  \<^verbatim>\<open>handleExecute\<close>, lines 50 to 90. \<open>config\<close> is the value of \<^verbatim>\<open>getConfig()\<close>, \<open>None\<close> when the
  connection does not exist. The new entries go in front of the earlier ones.
\<close>

definition handleExecute ::
  "('c \<Rightarrow> string \<Rightarrow> 'w \<Rightarrow> settled \<times> 'w) \<Rightarrow> ('w \<Rightarrow> int) \<Rightarrow> 'c option
     \<Rightarrow> editor \<times> 'w outside \<Rightarrow> editor \<times> 'w outside" where
  "handleExecute RedisExecuteCommand Date_now config_opt st =
     (case st of (s, out) \<Rightarrow>
      (case config_opt of
         None \<Rightarrow> (s, out)
       | Some config \<Rightarrow>
           (let cmdToExecute = trim (command_text s) in
            if cmdToExecute = [] then
              (s, out\<lparr>warnings := warnings out @ [please_enter_command]\<rparr>)
            else
              (let commands = commands_of cmdToExecute;
                   (newResults, out') =
                     run_commands RedisExecuteCommand Date_now config commands
                       ([], out)
               in (s\<lparr>results := newResults @ results s, loading := False\<rparr>, out')))))"

text \<open>\<^verbatim>\<open>handleClear\<close>, lines 92 to 94.\<close>

definition handleClear :: "editor \<Rightarrow> editor" where
  "handleClear s = s\<lparr>results := []\<rparr>"

text \<open>The editor's \<^verbatim>\<open>onChange\<close>: \<^verbatim>\<open>setCommand(value || '')\<close>.\<close>

definition setCommand :: "string \<Rightarrow> editor \<Rightarrow> editor" where
  "setCommand v s = s\<lparr>command_text := v\<rparr>"

text \<open>
  What is shown for one entry, lines 175 to 183: the error when \<^verbatim>\<open>item.error\<close> is truthy,
  the formatted result otherwise.
\<close>

definition display :: "CommandResult \<Rightarrow> string" where
  "display item =
     (case error item of
        None \<Rightarrow> formatResult (result item)
      | Some e \<Rightarrow> if e \<noteq> [] then ''(error) '' @ e else formatResult (result item))"

section \<open>Reference notions for the batch run\<close>

text \<open>
  The backend called once on each command of a list, in order, each call starting in the
  world the previous one left: the settled value and the world after every call.
\<close>

fun call_each ::
  "('c \<Rightarrow> string \<Rightarrow> 'w \<Rightarrow> settled \<times> 'w) \<Rightarrow> 'c \<Rightarrow> string list \<Rightarrow> 'w
     \<Rightarrow> (settled \<times> 'w) list" where
  "call_each exec config [] w = []"
| "call_each exec config (c # cs) w =
     (exec config c w) # call_each exec config cs (snd (exec config c w))"

definition world_after ::
  "('c \<Rightarrow> string \<Rightarrow> 'w \<Rightarrow> settled \<times> 'w) \<Rightarrow> 'c \<Rightarrow> string list \<Rightarrow> 'w \<Rightarrow> 'w" where
  "world_after exec config cs w = foldl (\<lambda>w c. snd (exec config c w)) w cs"

text \<open>
  A call failed when it resolved with \<^verbatim>\<open>success\<close> false or when it rejected; its error
  message is then the \<^verbatim>\<open>message\<close> field, or the message of the thrown value.
\<close>

definition failed :: "settled \<Rightarrow> bool" where
  "failed r = (case r of Resolved res \<Rightarrow> \<not> success res | Rejected e \<Rightarrow> True)"

definition error_text :: "settled \<Rightarrow> string" where
  "error_text r = (case r of Resolved res \<Rightarrow> message res | Rejected e \<Rightarrow> caught_message e)"

definition failure_message :: "settled \<Rightarrow> string option" where
  "failure_message r = (if failed r then Some (error_text r) else None)"

definition payload :: "settled \<Rightarrow> jsval" where
  "payload r =
     (case r of Resolved res \<Rightarrow> if success res then data res else Null | Rejected e \<Rightarrow> Null)"

definition entry_for :: "('w \<Rightarrow> int) \<Rightarrow> string \<Rightarrow> settled \<times> 'w \<Rightarrow> CommandResult" where
  "entry_for now c rw =
     \<lparr>command = c, result = payload (fst rw), error = failure_message (fst rw),
      timestamp = now (snd rw)\<rparr>"

text \<open>
  A small concrete backend for evaluating the definitions: the world is a counter of calls,
  which the clock follows; \<^verbatim>\<open>BADCMD\<close> is answered with a failure, \<^verbatim>\<open>BOOM\<close> makes the call
  reject, every other command is answered with the number 3.
\<close>

definition demo_exec :: "unit \<Rightarrow> string \<Rightarrow> nat \<Rightarrow> settled \<times> nat" where
  "demo_exec config cmd w =
     (if cmd = ''BADCMD''
        then Resolved \<lparr>success = False, data = Null, message = ''unknown command''\<rparr>
      else if cmd = ''BOOM''
        then Rejected \<lparr>e_message = None, e_String = ''connection lost''\<rparr>
      else Resolved \<lparr>success = True, data = Num 3, message = []\<rparr>,
      Suc w)"

definition demo_now :: "nat \<Rightarrow> int" where
  "demo_now w = 1700000000000 + int w"

definition demo_out :: "nat outside" where
  "demo_out = \<lparr>world = 0, invoked = [], warnings = []\<rparr>"

section \<open>The splitter\<close>

text \<open>
  The splitter as the specification words it: split the raw text at line feeds, trim each
  line, drop a line that is then empty or starts with \<^verbatim>\<open>//\<close> or \<^verbatim>\<open>#\<close>, keep the order.
\<close>

definition Split_spec :: "string \<Rightarrow> string list" where
  "Split_spec rawText =
     filter (\<lambda>t. \<not> (t = [] \<or> startsWith t ''//'' \<or> startsWith t ''#''))
       (map trim (split nl rawText))"

text \<open>
  The splitter as the handler has it: the editor text is trimmed (line 54), split and
  filtered (line 61), and in the loop each command is trimmed and an empty one is skipped
  (lines 67 and 68). These are the strings the loop works through.
\<close>

definition batch_commands :: "string \<Rightarrow> string list" where
  "batch_commands command_value =
     filter (\<lambda>trimmedCmd. trimmedCmd \<noteq> []) (map trim (commands_of (trim command_value)))"

text \<open>Removal of trailing white space, by recursion from the front (used in proofs).\<close>

fun trimEnd :: "string \<Rightarrow> string" where
  "trimEnd [] = []"
| "trimEnd (c # cs) = (if is_ws c \<and> trimEnd cs = [] then [] else c # trimEnd cs)"

text \<open>A line that is blank or a comment, in the specification's words.\<close>

definition blank_or_comment :: "string \<Rightarrow> bool" where
  "blank_or_comment l = (trim l = [] \<or> startsWith (trim l) ''//'' \<or> startsWith (trim l) ''#'')"

text \<open>A fresh component holding a given editor text.\<close>

definition demo_editor :: "string \<Rightarrow> editor" where
  "demo_editor text = \<lparr>command_text = text, results = [], loading = False\<rparr>"

section \<open>Reference notions for the formatter\<close>

text \<open>
  The leaves of a reply, counted through all levels of nesting; a reply whose leaves are
  strings or numbers and whose arrays are all non-empty; such a reply none of whose
  strings holds a line feed; and the number of lines of a text, separated by line feeds.
\<close>

fun leaves :: "jsval \<Rightarrow> nat" where
  "leaves (Arr xs) = sum_list (map leaves xs)"
| "leaves v = 1"

fun text_int_tree :: "jsval \<Rightarrow> bool" where
  "text_int_tree (Str s) = True"
| "text_int_tree (Num n) = True"
| "text_int_tree (Arr xs) = (xs \<noteq> [] \<and> list_all text_int_tree xs)"
| "text_int_tree v = False"

fun one_line_tree :: "jsval \<Rightarrow> bool" where
  "one_line_tree (Str s) = (nl \<notin> set s)"
| "one_line_tree (Num n) = True"
| "one_line_tree (Arr xs) = (xs \<noteq> [] \<and> list_all one_line_tree xs)"
| "one_line_tree v = False"

definition line_count :: "string \<Rightarrow> nat" where
  "line_count s = length (split nl s)"

text \<open>
  How many levels of a value the formatter descends into: one for a non-empty array and
  for an object with a property that is not \<^verbatim>\<open>undefined\<close>, on top of the deepest of its
  members. And the array that holds an array that holds an array, \<open>k\<close> times, around
  \<^verbatim>\<open>null\<close>.
\<close>

fun nesting :: "jsval \<Rightarrow> nat" where
  "nesting (Arr xs) = (if xs = [] then 0 else Suc (foldr max (map nesting xs) 0))"
| "nesting (Obj kvs) =
     (if filter (\<lambda>(key, v). v \<noteq> Undefined) kvs = [] then 0
      else Suc (foldr max (map (\<lambda>(key, v). nesting v)
                               (filter (\<lambda>(key, v). v \<noteq> Undefined) kvs)) 0))"
| "nesting v = 0"

fun nested :: "nat \<Rightarrow> jsval" where
  "nested 0 = Null"
| "nested (Suc k) = Arr [nested k]"

text \<open>The elements of an array value (for stating the tests of the source as they are).\<close>

fun elements :: "jsval \<Rightarrow> jsval list" where
  "elements (Arr xs) = xs"
| "elements v = []"

section \<open>Properties\<close>

subsection \<open>Numbers\<close>

text \<open>Below \<open>2\<^sup>5\<^sup>3\<close> the string form is the decimal numeral.\<close>

lemma bit_length_lower: "0 < n \<Longrightarrow> 2 ^ (bit_length n - 1) \<le> n"
proof (induction n rule: bit_length.induct)
  case (1 n)
  show ?case
  proof (cases "n div 2 = 0")
    case True
    with "1.prems" show ?thesis
      by (simp add: bit_length.simps [of n] bit_length.simps [of 0])
  next
    case False
    then have "2 ^ (bit_length (n div 2) - 1) \<le> n div 2"
      using "1.IH" "1.prems" by simp
    moreover have "0 < bit_length (n div 2)"
      using False by (simp add: bit_length.simps [of "n div 2"])
    ultimately have "2 ^ bit_length (n div 2) \<le> 2 * (n div 2)"
      by (cases "bit_length (n div 2)") simp_all
    then have "2 ^ bit_length (n div 2) \<le> n" by simp
    with "1.prems" show ?thesis by (simp add: bit_length.simps [of n])
  qed
qed

lemma bit_length_greater: "2 ^ k \<le> n \<Longrightarrow> k < bit_length n"
proof (induction k arbitrary: n)
  case 0
  then show ?case by (simp add: bit_length.simps [of n])
next
  case (Suc k)
  then have "2 ^ k \<le> n div 2" by simp
  moreover from Suc.prems have "n \<noteq> 0" by (cases n) simp_all
  ultimately show ?case
    using Suc.IH [of "n div 2"] by (simp add: bit_length.simps [of n])
qed

lemma to_double_small: "c < 2 ^ 53 \<Longrightarrow> to_double c = c"
  by (simp add: to_double_def)

lemma to_double_large:
  assumes "2 ^ 53 \<le> c"
  shows "2 ^ 53 \<le> to_double c"
proof -
  let ?L = "bit_length c"
  let ?q = "(2::nat) ^ (?L - 53)"
  from assms have L: "53 < ?L" by (rule bit_length_greater)
  from assms have "0 < c" by (simp add: less_le_trans [of 0 "2 ^ 53"])
  then have low: "2 ^ (?L - 1) \<le> c" by (rule bit_length_lower)
  have "?L - 1 = 52 + (?L - 53)" using L by simp
  then have split: "(2::nat) ^ (?L - 1) = 2 ^ 52 * ?q"
    by (simp only: power_add)
  have "2 ^ 52 * ?q div ?q \<le> c div ?q"
    using low unfolding split by (rule div_le_mono)
  then have m: "2 ^ 52 \<le> c div ?q" by simp
  have "(2::nat) ^ 53 \<le> 2 ^ (?L - 1)"
    using L by (intro power_increasing) simp_all
  also have "\<dots> = 2 ^ 52 * ?q" by (rule split)
  also have "\<dots> \<le> (c div ?q) * ?q" using m by (rule mult_le_mono1)
  finally have base: "2 ^ 53 \<le> (c div ?q) * ?q" .
  then have up: "2 ^ 53 \<le> (c div ?q + 1) * ?q"
    by (simp add: add_mult_distrib)
  from assms base up show ?thesis
    by (simp add: to_double_def Let_def)
qed

lemma shortest_digits_safe: "x < 2 ^ 53 \<Longrightarrow> shortest_digits x j = x"
proof (induction j)
  case 0
  show ?case by simp
next
  case (Suc j)
  let ?p = "(10::nat) ^ Suc j"
  let ?lo = "(x div ?p) * ?p"
  let ?hi = "?lo + ?p"
  have lo_le: "?lo \<le> x" by simp
  have "?lo < 2 ^ 53" using lo_le Suc.prems by (rule le_less_trans)
  then have lo: "to_double ?lo = ?lo" by (rule to_double_small)
  have "x = ?lo + x mod ?p" by (simp only: div_mult_mod_eq)
  moreover have "x mod ?p < ?p" by simp
  ultimately have "x < ?hi" by linarith
  have hi: "to_double ?hi \<noteq> x"
  proof (cases "?hi < 2 ^ 53")
    case True
    then have "to_double ?hi = ?hi" by (rule to_double_small)
    with \<open>x < ?hi\<close> show ?thesis by simp
  next
    case False
    then have "2 ^ 53 \<le> to_double ?hi" by (intro to_double_large) simp
    with Suc.prems show ?thesis by simp
  qed
  show ?case
    using hi lo Suc.IH [OF Suc.prems]
    by (simp only: shortest_digits.simps Let_def) auto
qed

lemma double_to_string_safe: "x < 2 ^ 53 \<Longrightarrow> double_to_string x = dec_nat x"
proof -
  assume x: "x < 2 ^ 53"
  have "(2::nat) ^ 53 < 10 ^ 21" and "(2::nat) ^ 53 < 2 ^ 1024" by simp_all
  with x have "x < 10 ^ 21" and "\<not> 2 ^ 1024 \<le> x" by simp_all
  with x show ?thesis
    by (simp only: double_to_string_def shortest_digits_safe Let_def if_True if_False)
qed

lemma number_to_string_safe: "\<bar>n\<bar> < 2 ^ 53 \<Longrightarrow> number_to_string n = decimal n"
proof -
  assume n: "\<bar>n\<bar> < 2 ^ 53"
  then have "nat \<bar>n\<bar> < 2 ^ 53" by (simp add: nat_less_iff)
  then have "to_double (nat \<bar>n\<bar>) = nat \<bar>n\<bar>"
    and "double_to_string (nat \<bar>n\<bar>) = dec_nat (nat \<bar>n\<bar>)"
    by (simp_all add: to_double_small double_to_string_safe)
  then show ?thesis
    by (cases "n < 0") (simp_all add: number_to_string_def decimal_def)
qed

lemma number_to_string_small:
  "number_to_string 1 = ''1''" "number_to_string 2 = ''2''" "number_to_string 3 = ''3''"
  "number_to_string 7 = ''7''"
  "number_to_string (-42) = ''-42''" "number_to_string 1234567890 = ''1234567890''"
  by (simp_all add: number_to_string_safe decimal_def dec_nat.simps digit_char_def)

lemma set_dec_nat: "set (dec_nat n) \<subseteq> set ''0123456789''"
proof (induction n rule: dec_nat.induct)
  case (1 n)
  have "n mod 10 < length ''0123456789''" by simp
  then have d: "digit_char n \<in> set ''0123456789''"
    unfolding digit_char_def by (rule nth_mem)
  show ?case
  proof (cases "n < 10")
    case True
    with d show ?thesis by (simp add: dec_nat.simps [of n])
  next
    case False
    with 1 d show ?thesis by (simp add: dec_nat.simps [of n])
  qed
qed

lemma dec_nat_no_nl: "nl \<notin> set (dec_nat n)"
  using set_dec_nat [of n] by (auto simp: nl_def)

lemma set_mantissa: "set (mantissa s) \<subseteq> insert (CHR ''.'') (set s)"
  by (induction s rule: mantissa.induct) auto

lemma exponent_form_no_nl: "nl \<notin> set (exponent_form c)"
proof -
  define s where "s = rev (dropWhile (\<lambda>d. d = CHR ''0'') (rev (dec_nat c)))"
  have "set s \<subseteq> set (dec_nat c)"
    unfolding s_def by (auto dest: set_dropWhileD)
  then have "nl \<notin> set s" using dec_nat_no_nl [of c] by blast
  moreover have "nl \<noteq> CHR ''.''" by (simp add: nl_def)
  ultimately have "nl \<notin> set (mantissa s)"
    using set_mantissa [of s] by blast
  moreover have "nl \<notin> set ''e+''" by (simp add: nl_def)
  ultimately show ?thesis
    using dec_nat_no_nl [of "length (dec_nat c) - 1"]
    by (simp only: exponent_form_def s_def [symmetric] set_append Un_iff) blast
qed

lemma double_to_string_no_nl: "nl \<notin> set (double_to_string x)"
  using dec_nat_no_nl exponent_form_no_nl
  by (simp add: double_to_string_def Let_def) (simp add: nl_def)

lemma number_to_string_no_nl: "nl \<notin> set (number_to_string n)"
  using double_to_string_no_nl by (simp add: number_to_string_def) (simp add: nl_def)

text \<open>Evaluation beyond the exact range.\<close>

lemma shortest_digits_pos:
  "0 < j \<Longrightarrow> shortest_digits x j =
     (let p = 10 ^ j; lo = (x div p) * p; hi = lo + p;
          ok_lo = (0 < lo \<and> to_double lo = x); ok_hi = (to_double hi = x)
      in if ok_lo \<and> ok_hi then
           (if x - lo < hi - x then lo
            else if hi - x < x - lo then hi
            else if even (lo div p) then lo
            else hi)
         else if ok_lo then lo
         else if ok_hi then hi
         else shortest_digits x (j - 1))"
proof -
  assume "0 < j"
  then obtain k where j: "j = Suc k" by (cases j) auto
  show ?thesis unfolding j by (simp only: shortest_digits.simps diff_Suc_1)
qed


lemma is_finite_number_safe: "\<bar>n\<bar> < 2 ^ 53 \<Longrightarrow> is_finite_number n"
proof -
  assume "\<bar>n\<bar> < 2 ^ 53"
  then have n: "nat \<bar>n\<bar> < 2 ^ 53" by (simp add: nat_less_iff)
  have "(2::nat) ^ 53 < 2 ^ 1024" by simp
  with n show ?thesis
    by (simp only: is_finite_number_def to_double_small [OF n])
qed

lemma number_to_string_large:
  "number_to_string 1152921504606846976 = ''1152921504606847000''"
  "number_to_string 9007199254740993 = ''9007199254740992''"
  "number_to_string 1000000000000000000000 = ''1e+21''"
  by (simp_all add: number_to_string_def double_to_string_def shortest_digits_pos to_double_def
        bit_length.simps Let_def dec_nat.simps digit_char_def exponent_form_def)

subsection \<open>The loop over the commands\<close>

lemma length_call_each [simp]: "length (call_each exec config cs w) = length cs"
  by (induction cs arbitrary: w) simp_all

lemma run_commands_eq:
  "run_commands exec now config cmds (acc, out) =
     (acc @ map2 (entry_for now) (filter (\<lambda>t. t \<noteq> []) (map trim cmds))
              (call_each exec config (filter (\<lambda>t. t \<noteq> []) (map trim cmds)) (world out)),
      out\<lparr>world := world_after exec config (filter (\<lambda>t. t \<noteq> []) (map trim cmds)) (world out),
          invoked := invoked out @ filter (\<lambda>t. t \<noteq> []) (map trim cmds)\<rparr>)"
proof (induction cmds arbitrary: acc out)
  case Nil
  show ?case by (simp add: world_after_def)
next
  case (Cons cmd cmds)
  show ?case
  proof (cases "trim cmd = []")
    case True
    then show ?thesis using Cons.IH by (simp add: Let_def)
  next
    case False
    obtain r w where rw: "exec config (trim cmd) (world out) = (r, w)"
      by (cases "exec config (trim cmd) (world out)")
    show ?thesis
    proof (cases r)
      case (Resolved res)
      with False rw show ?thesis
        by (simp add: Cons.IH Let_def entry_for_def payload_def failure_message_def failed_def
              error_text_def world_after_def)
    next
      case (Rejected e)
      with False rw show ?thesis
        by (simp add: Cons.IH Let_def entry_for_def payload_def failure_message_def failed_def
              error_text_def world_after_def)
    qed
  qed
qed

lemma nth_call_each:
  "i < length cs \<Longrightarrow>
     call_each exec config cs w ! i = exec config (cs ! i) (world_after exec config (take i cs) w)"
proof (induction cs arbitrary: w i)
  case Nil
  then show ?case by simp
next
  case (Cons c cs)
  show ?case
  proof (cases i)
    case 0
    then show ?thesis by (simp add: world_after_def)
  next
    case (Suc j)
    with Cons.prems have "j < length cs" by simp
    from Cons.IH [OF this] Suc show ?thesis by (simp add: world_after_def)
  qed
qed


lemma map2_proj:
  "length xs = length ys \<Longrightarrow> map command (map2 (entry_for now) xs ys) = xs"
  "length xs = length ys \<Longrightarrow> map error (map2 (entry_for now) xs ys) = map (failure_message \<circ> fst) ys"
  "length xs = length ys \<Longrightarrow> map result (map2 (entry_for now) xs ys) = map (payload \<circ> fst) ys"
  "length xs = length ys \<Longrightarrow> map timestamp (map2 (entry_for now) xs ys) = map (now \<circ> snd) ys"
  by (induction xs ys rule: list_induct2; simp add: entry_for_def)+

lemma filter_trim_nonblank:
  "\<forall>c \<in> set cmds. trim c \<noteq> [] \<Longrightarrow> filter (\<lambda>t. t \<noteq> []) (map trim cmds) = map trim cmds"
  by (induction cmds) simp_all

text \<open>
  Claim C1. For every list of commands that are not blank (as the filter of line 61 leaves
  them) and every behaviour of the backend call, the loop calls the backend exactly once per
  command, in the order of the list, each call starting in the world the previous call left;
  it returns exactly one entry per command, in the same order; entry \<open>i\<close> carries an error
  exactly when the call for command \<open>i\<close> failed, and the error is that call's message. A
  failed call never keeps a later command from being run.
\<close>

theorem run_commands_isolates_failures:
  assumes nonblank: "\<forall>c \<in> set cmds. trim c \<noteq> []"
  shows "length (fst (run_commands exec now config cmds ([], out))) = length cmds
    \<and> map command (fst (run_commands exec now config cmds ([], out))) = map trim cmds
    \<and> invoked (snd (run_commands exec now config cmds ([], out))) = invoked out @ map trim cmds
    \<and> world (snd (run_commands exec now config cmds ([], out)))
        = world_after exec config (map trim cmds) (world out)
    \<and> (\<forall>i < length cmds.
          error (fst (run_commands exec now config cmds ([], out)) ! i)
            = failure_message
                (fst (exec config (trim (cmds ! i))
                        (world_after exec config (map trim (take i cmds)) (world out))))
        \<and> result (fst (run_commands exec now config cmds ([], out)) ! i)
            = payload
                (fst (exec config (trim (cmds ! i))
                        (world_after exec config (map trim (take i cmds)) (world out)))))"
proof -
  let ?ts = "map trim cmds"
  let ?replies = "call_each exec config ?ts (world out)"
  let ?outs = "fst (run_commands exec now config cmds ([], out))"
  have ts: "filter (\<lambda>t. t \<noteq> []) (map trim cmds) = ?ts"
    using nonblank by (rule filter_trim_nonblank)
  have outs: "?outs = map2 (entry_for now) ?ts ?replies"
    by (simp add: run_commands_eq ts)
  have len: "length ?outs = length cmds"
    by (simp add: outs)
  have cmd: "map command ?outs = ?ts"
    unfolding outs by (rule map2_proj(1)) simp
  have inv: "invoked (snd (run_commands exec now config cmds ([], out))) = invoked out @ ?ts"
    by (simp add: run_commands_eq ts)
  have wld: "world (snd (run_commands exec now config cmds ([], out)))
               = world_after exec config ?ts (world out)"
    by (simp add: run_commands_eq ts)
  have each: "error (?outs ! i)
                = failure_message (fst (exec config (trim (cmds ! i))
                        (world_after exec config (map trim (take i cmds)) (world out))))
            \<and> result (?outs ! i)
                = payload (fst (exec config (trim (cmds ! i))
                        (world_after exec config (map trim (take i cmds)) (world out))))"
    if i: "i < length cmds" for i
  proof -
    have "?outs ! i = entry_for now (?ts ! i) (?replies ! i)"
      using i by (simp add: outs)
    moreover have "?replies ! i
        = exec config (?ts ! i) (world_after exec config (take i ?ts) (world out))"
      using i by (simp add: nth_call_each)
    ultimately show ?thesis
      using i by (simp add: entry_for_def take_map)
  qed
  from len cmd inv wld each show ?thesis
    by blast
qed

theorem run_commands_isolates_failures_witness:
  "trim ''BADCMD'' \<noteq> [] \<and> trim ''BOOM'' \<noteq> [] \<and> trim ''DBSIZE'' \<noteq> []
   \<and> map error (fst (run_commands demo_exec demo_now () [''BADCMD'', ''BOOM'', ''DBSIZE''] ([], demo_out)))
       = [Some ''unknown command'', Some ''connection lost'', None]
   \<and> invoked (snd (run_commands demo_exec demo_now () [''BADCMD'', ''BOOM'', ''DBSIZE''] ([], demo_out)))
       = [''BADCMD'', ''BOOM'', ''DBSIZE'']
   \<and> map display (fst (run_commands demo_exec demo_now () [''BADCMD'', ''BOOM'', ''DBSIZE''] ([], demo_out)))
       = [''(error) unknown command'', ''(error) connection lost'', ''(integer) 3'']"
proof -
  have h: "\<forall>c \<in> set [''BADCMD'', ''BOOM'', ''DBSIZE'']. trim c \<noteq> []"
    by (simp add: trim_def is_ws_def)
  show ?thesis
    using h run_commands_isolates_failures [OF h, of demo_exec demo_now "()" demo_out]
    by (simp add: trim_def is_ws_def demo_exec_def demo_out_def demo_now_def Let_def
          caught_message_def display_def number_to_string_small)
qed

subsection \<open>Trimming and splitting\<close>

lemma trimEnd_Nil_iff: "trimEnd s = [] \<longleftrightarrow> (\<forall>c \<in> set s. is_ws c)"
  by (induction s) auto

lemma trimEnd_rev: "rev (dropWhile is_ws (rev s)) = trimEnd s"
proof (induction s)
  case Nil
  show ?case by simp
next
  case (Cons c cs)
  show ?case
  proof (cases "\<forall>x \<in> set cs. is_ws x")
    case True
    then have "trimEnd cs = []" by (simp add: trimEnd_Nil_iff)
    with True show ?thesis by (simp add: dropWhile_append)
  next
    case False
    then have ne: "trimEnd cs \<noteq> []" by (simp add: trimEnd_Nil_iff)
    from Cons.IH have "dropWhile is_ws (rev cs) = rev (trimEnd cs)"
      by (metis rev_rev_ident)
    with False ne show ?thesis by (simp add: dropWhile_append)
  qed
qed

lemma trim_eq: "trim s = trimEnd (dropWhile is_ws s)"
  by (simp add: trim_def trimEnd_rev)

lemma trimEnd_dropWhile: "trimEnd (dropWhile is_ws s) = dropWhile is_ws (trimEnd s)"
proof (induction s)
  case Nil
  show ?case by simp
next
  case (Cons c cs)
  show ?case
  proof (cases "is_ws c")
    case False
    then show ?thesis by simp
  next
    case True
    show ?thesis
    proof (cases "trimEnd cs = []")
      case True
      with \<open>is_ws c\<close> Cons.IH show ?thesis by simp
    next
      case False
      with \<open>is_ws c\<close> Cons.IH show ?thesis by simp
    qed
  qed
qed

lemma trim_via_trimEnd: "trim s = dropWhile is_ws (trimEnd s)"
  by (simp add: trim_eq trimEnd_dropWhile)

lemma trim_ws_Cons: "is_ws c \<Longrightarrow> trim (c # s) = trim s"
  by (simp add: trim_def)

lemma trim_Nil [simp]: "trim [] = []"
  by (simp add: trim_def)

lemma split_not_Nil [simp]: "split d s \<noteq> []"
  by (induction s) (auto split: list.splits)

lemma split_Cons_other:
  "c \<noteq> d \<Longrightarrow> split d (c # cs) = (c # hd (split d cs)) # tl (split d cs)"
  by (cases "split d cs") simp_all

lemma is_ws_nl: "is_ws nl"
  by (simp add: is_ws_def nl_def)

text \<open>Leading white space of the text does not change the commands.\<close>

lemma split_dropWhile_ws:
  assumes "\<not> P []"
  shows "filter P (map trim (split nl (dropWhile is_ws s))) = filter P (map trim (split nl s))"
proof (induction s)
  case Nil
  show ?case by simp
next
  case (Cons c cs)
  show ?case
  proof (cases "is_ws c")
    case False
    then show ?thesis by simp
  next
    case True
    show ?thesis
    proof (cases "c = nl")
      case True
      with \<open>is_ws c\<close> assms Cons.IH show ?thesis by simp
    next
      case False
      have "map trim (split nl (c # cs)) = map trim (split nl cs)"
        using False \<open>is_ws c\<close> by (cases "split nl cs") (simp_all add: trim_ws_Cons)
      with \<open>is_ws c\<close> Cons.IH show ?thesis by simp
    qed
  qed
qed

text \<open>Trailing white space of the text only adds blank lines.\<close>

lemma split_all_ws:
  "\<forall>c \<in> set s. is_ws c \<Longrightarrow> map trimEnd (split nl s) = replicate (length (split nl s)) []"
proof (induction s)
  case Nil
  show ?case by simp
next
  case (Cons c cs)
  then have IH: "map trimEnd (split nl cs) = replicate (length (split nl cs)) []" by simp
  from Cons.prems have c: "is_ws c" by simp
  show ?case
  proof (cases "c = nl")
    case True
    with IH show ?thesis by simp
  next
    case False
    obtain l ls where sp: "split nl cs = l # ls" by (cases "split nl cs") simp_all
    with IH have "trimEnd l = []" by simp
    with sp IH False c show ?thesis by simp
  qed
qed

lemma split_trimEnd:
  "\<exists>m. map trimEnd (split nl s) = map trimEnd (split nl (trimEnd s)) @ replicate m []"
proof (induction s)
  case Nil
  show ?case by simp
next
  case (Cons c cs)
  then obtain m where IH:
    "map trimEnd (split nl cs) = map trimEnd (split nl (trimEnd cs)) @ replicate m []" by blast
  show ?case
  proof (cases "is_ws c \<and> trimEnd cs = []")
    case True
    then have all: "\<forall>x \<in> set (c # cs). is_ws x" by (simp add: trimEnd_Nil_iff)
    have "length (split nl (c # cs)) \<noteq> 0"
      using split_not_Nil [of nl "c # cs"] by blast
    then obtain k where k: "length (split nl (c # cs)) = Suc k"
      by (cases "length (split nl (c # cs))") blast+
    have "map trimEnd (split nl (c # cs)) = replicate (Suc k) []"
      using split_all_ws [OF all] k by simp
    with True show ?thesis by simp
  next
    case False
    then have te: "trimEnd (c # cs) = c # trimEnd cs" by auto
    show ?thesis
    proof (cases "c = nl")
      case True
      with te IH show ?thesis by simp
    next
      case False
      obtain l ls where sp: "split nl cs = l # ls" by (cases "split nl cs") simp_all
      obtain l' ls' where sp': "split nl (trimEnd cs) = l' # ls'"
        by (cases "split nl (trimEnd cs)") simp_all
      from IH sp sp' have hd: "trimEnd l = trimEnd l'"
        and tl: "map trimEnd ls = map trimEnd ls' @ replicate m []" by simp_all
      from False te sp sp' hd tl show ?thesis by simp
    qed
  qed
qed

lemma map_trim_via: "map trim xs = map (dropWhile is_ws) (map trimEnd xs)"
  by (simp add: trim_via_trimEnd)

lemma split_trimEnd_filter:
  assumes "\<not> P []"
  shows "filter P (map trim (split nl (trimEnd s))) = filter P (map trim (split nl s))"
proof -
  obtain m where m: "map trimEnd (split nl s) = map trimEnd (split nl (trimEnd s)) @ replicate m []"
    using split_trimEnd by blast
  have "map trim (split nl s) = map trim (split nl (trimEnd s)) @ replicate m []"
    unfolding map_trim_via m by simp
  with assms show ?thesis by simp
qed

lemma split_trim_filter:
  assumes "\<not> P []"
  shows "filter P (map trim (split nl (trim s))) = filter P (map trim (split nl s))"
proof -
  have "filter P (map trim (split nl (trim s)))
          = filter P (map trim (split nl (trimEnd (dropWhile is_ws s))))"
    by (simp only: trim_eq [of s])
  also have "\<dots> = filter P (map trim (split nl (dropWhile is_ws s)))"
    using assms by (rule split_trimEnd_filter)
  also have "\<dots> = filter P (map trim (split nl s))"
    using assms by (rule split_dropWhile_ws)
  finally show ?thesis .
qed

lemma batch_commands_eq: "batch_commands raw = Split_spec raw"
proof -
  let ?P = "\<lambda>t. \<not> (t = [] \<or> startsWith t ''//'' \<or> startsWith t ''#'')"
  have "batch_commands raw = filter ?P (map trim (split nl (trim raw)))"
    by (simp add: batch_commands_def commands_of_def filter_map comp_def keep_line_def
          conj_commute)
  also have "\<dots> = filter ?P (map trim (split nl raw))"
    by (rule split_trim_filter) simp
  finally show ?thesis by (simp add: Split_spec_def)
qed

subsection \<open>The handler as a whole\<close>

lemma handleExecute_Some:
  "handleExecute exec now (Some config) (s, out) =
     (if trim (command_text s) = [] then (s, out\<lparr>warnings := warnings out @ [please_enter_command]\<rparr>)
      else (s\<lparr>results := map2 (entry_for now) (batch_commands (command_text s))
                            (call_each exec config (batch_commands (command_text s)) (world out))
                          @ results s,
              loading := False\<rparr>,
            out\<lparr>world := world_after exec config (batch_commands (command_text s)) (world out),
                invoked := invoked out @ batch_commands (command_text s)\<rparr>))"
  by (simp add: handleExecute_def Let_def run_commands_eq batch_commands_def)

lemma batch_commands_blank: "trim raw = [] \<Longrightarrow> batch_commands raw = []"
  by (simp add: batch_commands_def commands_of_def keep_line_def)

lemma handleExecute_invoked:
  "invoked (snd (handleExecute exec now (Some config) (s, out)))
     = invoked out @ batch_commands (command_text s)"
  by (simp add: handleExecute_Some batch_commands_blank)

lemma handleExecute_results:
  "results (fst (handleExecute exec now (Some config) (s, out)))
     = map2 (entry_for now) (batch_commands (command_text s))
         (call_each exec config (batch_commands (command_text s)) (world out)) @ results s"
  by (simp add: handleExecute_Some batch_commands_blank)

lemma handleExecute_world:
  "world (snd (handleExecute exec now (Some config) (s, out)))
     = world_after exec config (batch_commands (command_text s)) (world out)"
  by (simp add: handleExecute_Some batch_commands_blank world_after_def)

lemma handleExecute_warnings:
  "warnings (snd (handleExecute exec now (Some config) (s, out)))
     = (if trim (command_text s) = [] then warnings out @ [please_enter_command] else warnings out)"
  by (simp add: handleExecute_Some)

text \<open>
  Claim C3. For every raw editor text, the commands the handler works through are the
  lines of the text (split at line feeds), each trimmed, without the lines that are empty
  after trimming or start with \<^verbatim>\<open>//\<close> or \<^verbatim>\<open>#\<close> after trimming, in their original order; these
  are exactly the strings handed to the backend. The text with the lines \<^verbatim>\<open>GET foo\<close>,
  \<^verbatim>\<open># comment\<close> and \<^verbatim>\<open>DBSIZE\<close> yields \<^verbatim>\<open>GET foo\<close> and \<^verbatim>\<open>DBSIZE\<close>.
\<close>

theorem split_refines_spec:
  "batch_commands raw = Split_spec raw
   \<and> invoked (snd (handleExecute exec now (Some config) (setCommand raw s, out)))
       = invoked out @ Split_spec raw
   \<and> batch_commands ''GET foo\<newline># comment\<newline>DBSIZE'' = [''GET foo'', ''DBSIZE'']"
proof -
  have "batch_commands ''GET foo\<newline># comment\<newline>DBSIZE'' = [''GET foo'', ''DBSIZE'']"
    by (simp add: batch_commands_def commands_of_def keep_line_def trim_def is_ws_def
          startsWith_def nl_def)
  then show ?thesis
    by (simp add: batch_commands_eq [symmetric] handleExecute_invoked setCommand_def)
qed

text \<open>The trimmed text is empty exactly when every line is blank.\<close>

lemma trim_Nil_iff: "trim s = [] \<longleftrightarrow> (\<forall>c \<in> set s. is_ws c)"
proof
  assume "trim s = []"
  then have "\<forall>c \<in> set (dropWhile is_ws s). is_ws c"
    by (simp add: trim_eq trimEnd_Nil_iff)
  then have "dropWhile is_ws s = []"
    by (metis hd_dropWhile hd_in_set)
  then show "\<forall>c \<in> set s. is_ws c" by simp
next
  assume "\<forall>c \<in> set s. is_ws c"
  then show "trim s = []" by (auto simp: trim_def dest: set_dropWhileD)
qed

lemma split_all_ws_iff:
  "(\<forall>l \<in> set (split nl s). \<forall>c \<in> set l. is_ws c) \<longleftrightarrow> (\<forall>c \<in> set s. is_ws c)"
proof (induction s)
  case Nil
  show ?case by simp
next
  case (Cons c cs)
  show ?case
  proof (cases "c = nl")
    case True
    with Cons.IH show ?thesis by (simp add: is_ws_nl)
  next
    case False
    obtain l ls where sp: "split nl cs = l # ls" by (cases "split nl cs") simp_all
    with False Cons.IH show ?thesis by auto
  qed
qed

lemma blank_text_iff_blank_lines:
  "trim raw = [] \<longleftrightarrow> list_all (\<lambda>l. trim l = []) (split nl raw)"
  by (simp add: trim_Nil_iff list_all_iff split_all_ws_iff del: split.simps)

lemma Split_spec_empty:
  "list_all blank_or_comment (split nl raw) \<Longrightarrow> Split_spec raw = []"
  by (simp add: Split_spec_def blank_or_comment_def list_all_iff filter_empty_conv)

text \<open>
  Claim C2, as stated, fails: the text \<^verbatim>\<open># comment\<close> consists of one comment line and gives
  no command, yet the handler shows no warning for it.
\<close>

theorem comment_only_submission_not_warned:
  "list_all blank_or_comment (split nl ''# comment'')
   \<and> Split_spec ''# comment'' = []
   \<and> warnings (snd (handleExecute demo_exec demo_now (Some ()) (demo_editor ''# comment'', demo_out))) = []"
  by (simp add: handleExecute_warnings demo_editor_def demo_out_def Split_spec_def
        blank_or_comment_def trim_def is_ws_def startsWith_def nl_def)

text \<open>
  Claim C2, amended. For every submission whose lines are all blank or comments, the
  handler calls the backend not at all, leaves the world as it was and adds nothing to
  the result list. The warning is shown exactly when the whole text is empty after
  trimming, which is when every line is blank; a text with at least one comment line is
  passed over without a warning.
\<close>

theorem empty_batch_runs_nothing:
  assumes "list_all blank_or_comment (split nl raw)"
  shows "invoked (snd (handleExecute exec now (Some config) (setCommand raw s, out))) = invoked out
    \<and> world (snd (handleExecute exec now (Some config) (setCommand raw s, out))) = world out
    \<and> results (fst (handleExecute exec now (Some config) (setCommand raw s, out))) = results s
    \<and> warnings (snd (handleExecute exec now (Some config) (setCommand raw s, out)))
        = (if trim raw = [] then warnings out @ [please_enter_command] else warnings out)
    \<and> (trim raw = []) = list_all (\<lambda>l. trim l = []) (split nl raw)"
proof -
  have "batch_commands raw = []"
    using assms by (simp add: batch_commands_eq Split_spec_empty)
  then have "invoked (snd (handleExecute exec now (Some config) (setCommand raw s, out)))
               = invoked out
    \<and> world (snd (handleExecute exec now (Some config) (setCommand raw s, out))) = world out
    \<and> results (fst (handleExecute exec now (Some config) (setCommand raw s, out))) = results s
    \<and> warnings (snd (handleExecute exec now (Some config) (setCommand raw s, out)))
        = (if trim raw = [] then warnings out @ [please_enter_command] else warnings out)"
    by (simp add: handleExecute_invoked handleExecute_world handleExecute_results
          handleExecute_warnings setCommand_def world_after_def)
  with blank_text_iff_blank_lines [of raw] show ?thesis
    by blast
qed

theorem empty_batch_runs_nothing_witness:
  "list_all blank_or_comment (split nl ''  \<newline># comment\<newline>// note'')
   \<and> invoked (snd (handleExecute demo_exec demo_now (Some ())
         (setCommand ''  \<newline># comment\<newline>// note'' (demo_editor []), demo_out))) = []
   \<and> warnings (snd (handleExecute demo_exec demo_now (Some ())
         (setCommand ''  \<newline># comment\<newline>// note'' (demo_editor []), demo_out))) = []
   \<and> warnings (snd (handleExecute demo_exec demo_now (Some ())
         (setCommand '' \<newline>  '' (demo_editor []), demo_out))) = [please_enter_command]"
proof -
  have h1: "list_all blank_or_comment (split nl ''  \<newline># comment\<newline>// note'')"
    by (simp add: blank_or_comment_def trim_def is_ws_def startsWith_def nl_def)
  have h2: "list_all blank_or_comment (split nl '' \<newline>  '')"
    by (simp add: blank_or_comment_def trim_def is_ws_def startsWith_def nl_def)
  have t1: "trim ''  \<newline># comment\<newline>// note'' \<noteq> []"
    by (simp add: trim_def is_ws_def)
  have t2: "trim '' \<newline>  '' = []"
    by (simp add: trim_def is_ws_def)
  show ?thesis
    using h1 t1 t2
      empty_batch_runs_nothing [OF h1, of demo_exec demo_now "()" "demo_editor []" demo_out]
      empty_batch_runs_nothing [OF h2, of demo_exec demo_now "()" "demo_editor []" demo_out]
    by (simp add: demo_out_def)
qed

subsection \<open>The result list\<close>

lemma command_entries:
  "map command (map2 (entry_for now) cs (call_each exec config cs w)) = cs"
  by (rule map2_proj(1)) simp

text \<open>
  Claim C8. After batch \<open>A\<close> and then batch \<open>B\<close> are submitted, the result list holds
  the outcomes of \<open>B\<close> in the order of \<open>B\<close>'s commands, then the outcomes of \<open>A\<close> in the
  order of \<open>A\<close>'s commands, then the earlier entries. The outcomes of a batch are, for
  each of its commands in order, the entry built from what the backend call for that
  command settled to (command, payload, error message, time stamp), the calls of \<open>B\<close>
  starting in the world the calls of \<open>A\<close> left. Each submission leaves the list it found
  unchanged behind its own entries. Clearing leaves the empty list.
\<close>

theorem history_newest_batch_first:
  "results (fst (handleExecute exec now (Some config)
         (setCommand B (fst (handleExecute exec now (Some config) (setCommand A s, out))),
          snd (handleExecute exec now (Some config) (setCommand A s, out)))))
     = map2 (entry_for now) (Split_spec B)
         (call_each exec config (Split_spec B)
            (world_after exec config (Split_spec A) (world out)))
       @ map2 (entry_for now) (Split_spec A) (call_each exec config (Split_spec A) (world out))
       @ results s
   \<and> map command
      (results (fst (handleExecute exec now (Some config)
         (setCommand B (fst (handleExecute exec now (Some config) (setCommand A s, out))),
          snd (handleExecute exec now (Some config) (setCommand A s, out))))))
     = Split_spec B @ Split_spec A @ map command (results s)
   \<and> drop (length (Split_spec B))
      (results (fst (handleExecute exec now (Some config)
         (setCommand B (fst (handleExecute exec now (Some config) (setCommand A s, out))),
          snd (handleExecute exec now (Some config) (setCommand A s, out))))))
     = results (fst (handleExecute exec now (Some config) (setCommand A s, out)))
   \<and> drop (length (Split_spec A))
        (results (fst (handleExecute exec now (Some config) (setCommand A s, out))))
     = results s
   \<and> results (handleClear s) = []"
proof -
  obtain s1 out1 where r1: "handleExecute exec now (Some config) (setCommand A s, out) = (s1, out1)"
    by (cases "handleExecute exec now (Some config) (setCommand A s, out)")
  have s1_cmd: "command_text (setCommand B s1) = B" and s_cmd: "command_text (setCommand A s) = A"
    by (simp_all add: setCommand_def)
  have res_set: "\<And>v t. results (setCommand v t) = results t"
    by (simp add: setCommand_def)
  let ?eA = "map2 (entry_for now) (Split_spec A) (call_each exec config (Split_spec A) (world out))"
  let ?eB = "map2 (entry_for now) (Split_spec B) (call_each exec config (Split_spec B) (world out1))"
  have w1: "world out1 = world_after exec config (Split_spec A) (world out)"
    using handleExecute_world [of exec now config "setCommand A s" out]
    by (simp add: r1 s_cmd batch_commands_eq)
  have A: "results s1 = ?eA @ results s"
    using handleExecute_results [of exec now config "setCommand A s" out]
    by (simp add: r1 s_cmd res_set batch_commands_eq)
  have B: "results (fst (handleExecute exec now (Some config) (setCommand B s1, out1)))
             = ?eB @ results s1"
    using handleExecute_results [of exec now config "setCommand B s1" out1]
    by (simp add: s1_cmd res_set batch_commands_eq)
  have lA: "length ?eA = length (Split_spec A)" and lB: "length ?eB = length (Split_spec B)"
    by simp_all
  have cA: "map command ?eA = Split_spec A" and cB: "map command ?eB = Split_spec B"
    by (simp_all only: command_entries)
  have 0: "results (fst (handleExecute exec now (Some config) (setCommand B s1, out1)))
             = map2 (entry_for now) (Split_spec B)
                 (call_each exec config (Split_spec B)
                    (world_after exec config (Split_spec A) (world out)))
               @ ?eA @ results s"
    by (simp only: B A w1)
  have 1: "map command (results (fst (handleExecute exec now (Some config) (setCommand B s1, out1))))
             = Split_spec B @ Split_spec A @ map command (results s)"
    by (simp only: A B map_append cA cB)
  have 2: "drop (length (Split_spec B))
             (results (fst (handleExecute exec now (Some config) (setCommand B s1, out1))))
             = results s1"
    by (simp only: B lB [symmetric]) simp
  have 3: "drop (length (Split_spec A)) (results s1) = results s"
    by (simp only: A lA [symmetric]) simp
  from 0 1 2 3 show ?thesis
    by (simp only: r1 fst_conv snd_conv handleClear_def) simp
qed

subsection \<open>Time stamps\<close>

lemma call_each_later:
  assumes mono: "\<forall>config cmd w. (now w :: int) \<le> now (snd (exec config cmd w))"
  shows "rw \<in> set (call_each exec config cs w) \<Longrightarrow> now w \<le> now (snd rw)"
proof (induction cs arbitrary: w)
  case Nil
  then show ?case by simp
next
  case (Cons c cs)
  from mono have step: "now w \<le> now (snd (exec config c w))" by blast
  from Cons.prems consider "rw = exec config c w"
    | "rw \<in> set (call_each exec config cs (snd (exec config c w)))" by auto
  then show ?case
  proof cases
    case 1
    with step show ?thesis by simp
  next
    case 2
    from Cons.IH [OF 2] step show ?thesis by simp
  qed
qed

lemma call_each_sorted:
  assumes mono: "\<forall>config cmd w. (now w :: int) \<le> now (snd (exec config cmd w))"
  shows "sorted (map (now \<circ> snd) (call_each exec config cs w))"
proof (induction cs arbitrary: w)
  case Nil
  show ?case by simp
next
  case (Cons c cs)
  have "\<forall>rw \<in> set (call_each exec config cs (snd (exec config c w))).
          now (snd (exec config c w)) \<le> now (snd rw)"
    using call_each_later [OF mono] by blast
  with Cons.IH show ?case by simp
qed

text \<open>
  Claim C9. Each entry's time stamp is the clock read when the entry is built, right
  after its call has settled. If no backend call ever moves the clock backwards, the time
  stamps of the entries of one run are non-decreasing in the order of the commands.
\<close>

theorem timestamps_nondecreasing:
  assumes mono: "\<forall>config cmd w. now w \<le> now (snd (exec config cmd w))"
  shows "sorted (map timestamp (fst (run_commands exec now config cmds ([], out))))
    \<and> map timestamp (fst (run_commands exec now config cmds ([], out)))
        = map (now \<circ> snd)
            (call_each exec config (filter (\<lambda>t. t \<noteq> []) (map trim cmds)) (world out))"
proof -
  let ?ts = "filter (\<lambda>t. t \<noteq> []) (map trim cmds)"
  have eq: "map timestamp (fst (run_commands exec now config cmds ([], out)))
        = map (now \<circ> snd) (call_each exec config ?ts (world out))"
    unfolding run_commands_eq fst_conv append_Nil by (rule map2_proj(4)) simp
  show ?thesis
    unfolding eq using call_each_sorted [OF mono] by simp
qed

theorem timestamps_nondecreasing_witness:
  "map timestamp (fst (run_commands demo_exec demo_now () [''BADCMD'', '' '', ''DBSIZE''] ([], demo_out)))
     = [1700000000001, 1700000000002]
   \<and> sorted (map timestamp (fst (run_commands demo_exec demo_now () [''BADCMD'', '' '', ''DBSIZE''] ([], demo_out))))"
proof -
  have h: "\<forall>config cmd w. demo_now w \<le> demo_now (snd (demo_exec config cmd w))"
    by (simp add: demo_now_def demo_exec_def)
  show ?thesis
    using timestamps_nondecreasing [OF h, of "()" "[''BADCMD'', '' '', ''DBSIZE'']" demo_out]
    by (simp add: trim_def is_ws_def demo_exec_def demo_out_def demo_now_def Let_def)
qed

subsection \<open>The formatter\<close>

text \<open>
  Claim C4, as stated, fails for large integers: the number is printed as JavaScript
  prints a double, so \<open>2\<^sup>6\<^sup>0\<close>, which is 1152921504606846976, is rendered as
  \<^verbatim>\<open>(integer) 1152921504606847000\<close>.
\<close>

theorem large_integer_not_rendered_exactly:
  "formatResult (Num 1152921504606846976) = ''(integer) 1152921504606847000''
   \<and> decimal 1152921504606846976 = ''1152921504606846976''
   \<and> formatResult (Num 1152921504606846976) \<noteq> ''(integer) '' @ decimal 1152921504606846976"
  by (simp add: number_to_string_large decimal_def dec_nat.simps digit_char_def)

text \<open>
  Claim C4, amended. \<^verbatim>\<open>null\<close> and \<^verbatim>\<open>undefined\<close> are rendered \<^verbatim>\<open>(nil)\<close>, a string is rendered
  between double quotes, the empty array is rendered \<^verbatim>\<open>(empty array)\<close>, and a number is
  rendered \<^verbatim>\<open>(integer) \<close> followed by its JavaScript string form, which for an integer \<open>n\<close>
  of magnitude below \<open>2\<^sup>5\<^sup>3\<close> is the decimal numeral of \<open>n\<close>.
\<close>

theorem format_scalars:
  "formatResult Null = ''(nil)''
   \<and> formatResult Undefined = ''(nil)''
   \<and> formatResult (Str t) = [dq] @ t @ [dq]
   \<and> formatResult (Num n) = ''(integer) '' @ number_to_string n
   \<and> (\<bar>n\<bar> < 2 ^ 53 \<longrightarrow> formatResult (Num n) = ''(integer) '' @ decimal n)
   \<and> formatResult (Arr []) = ''(empty array)''
   \<and> formatResult (Str ''value'') = [CHR 0x22] @ ''value'' @ [CHR 0x22]"
  by (simp add: number_to_string_safe dq_def)

theorem format_scalars_witness:
  "\<bar>3 :: int\<bar> < 2 ^ 53 \<and> \<bar>- 42 :: int\<bar> < 2 ^ 53 \<and> \<bar>9007199254740991 :: int\<bar> < 2 ^ 53
   \<and> formatResult (Num 3) = ''(integer) 3''
   \<and> formatResult (Num (- 42)) = ''(integer) -42''
   \<and> formatResult (Num 9007199254740991) = ''(integer) 9007199254740991''"
  using format_scalars [of "[]" 3] format_scalars [of "[]" "- 42"]
    format_scalars [of "[]" 9007199254740991]
  by (simp add: decimal_def dec_nat.simps digit_char_def)

lemma map_enumerate_nth:
  "map (\<lambda>(i, x). f i x) (enumerate 0 xs) = map (\<lambda>i. f i (xs ! i)) [0..<length xs]"
  by (rule nth_equalityI) (simp_all add: nth_enumerate_eq)

lemma formatResult_Arr:
  "xs \<noteq> [] \<Longrightarrow>
   formatResult (Arr xs) =
     join [nl] (map (\<lambda>i. number_to_string (int i + 1) @ '') '' @ formatResult (xs ! i))
                    [0..<length xs])"
  by (simp add: map_enumerate_nth)

lemma join_Cons: "join sep (p # ps) = p @ (if ps = [] then [] else sep @ join sep ps)"
  by (cases ps) simp_all

lemma startsWith_append [simp]: "startsWith (p @ s) p"
  by (simp add: startsWith_def)

lemma formatResult_Arr_first:
  "ys \<noteq> [] \<Longrightarrow> \<exists>r. formatResult (Arr ys) = ''1) '' @ formatResult (hd ys) @ r"
proof -
  assume "ys \<noteq> []"
  then obtain y ys' where ys: "ys = y # ys'" by (cases ys) auto
  show ?thesis
    by (simp add: ys enumerate_simps join_Cons number_to_string_small del: join.simps)
qed




subsection \<open>Lines of a rendering\<close>

lemma split_no_sep: "d \<notin> set p \<Longrightarrow> split d (p @ s) = (p @ hd (split d s)) # tl (split d s)"
proof (induction p)
  case Nil
  show ?case by (simp del: split.simps)
next
  case (Cons c p)
  then have "c \<noteq> d" and "d \<notin> set p" by auto
  with Cons.IH show ?case by (simp add: split_Cons_other del: split.simps)
qed

lemma split_at_sep: "split d (a @ d # b) = split d a @ split d b"
proof (induction a)
  case Nil
  show ?case by simp
next
  case (Cons c a)
  show ?case
  proof (cases "c = d")
    case True
    with Cons.IH show ?thesis by simp
  next
    case False
    obtain l ls where sp: "split d a = l # ls" by (cases "split d a") simp_all
    with False Cons.IH show ?thesis by simp
  qed
qed

lemma split_join:
  "blocks \<noteq> [] \<Longrightarrow> split d (join [d] blocks) = concat (map (split d) blocks)"
proof (induction blocks)
  case Nil
  then show ?case by simp
next
  case (Cons p ps)
  show ?case
  proof (cases ps)
    case Nil
    then show ?thesis by simp
  next
    case (Cons q qs)
    with Cons.IH have "split d (join [d] ps) = concat (map (split d) ps)" by simp
    with Cons show ?thesis by (simp add: split_at_sep del: split.simps)
  qed
qed

lemma prefix_no_nl: "nl \<notin> set (number_to_string n @ '') '')"
  using number_to_string_no_nl [of n] by (simp add: nl_def)

lemma split_prefixed:
  "split nl ((number_to_string n @ '') '') @ s)
     = ((number_to_string n @ '') '') @ hd (split nl s)) # tl (split nl s)"
  using prefix_no_nl by (rule split_no_sep)

lemma length_split_prefixed:
  "length (split nl ((number_to_string n @ '') '') @ s)) = length (split nl s)"
  unfolding split_prefixed using split_not_Nil [of nl s] by (cases "split nl s") simp_all

lemma split_formatResult_Arr:
  assumes "xs \<noteq> []"
  shows "split nl (formatResult (Arr xs))
     = concat (map (\<lambda>i. split nl ((number_to_string (int i + 1) @ '') '') @ formatResult (xs ! i)))
                   [0..<length xs])"
proof -
  have "map (\<lambda>i. number_to_string (int i + 1) @ '') '' @ formatResult (xs ! i)) [0..<length xs] \<noteq> []"
    using assms by simp
  from split_join [OF this, of nl] show ?thesis
    unfolding formatResult_Arr [OF assms] by (simp add: comp_def del: split.simps)
qed

lemma sum_list_nth_upt: "sum_list (map (\<lambda>i. f (xs ! i)) [0..<length xs]) = sum_list (map f xs)"
proof -
  have "map (\<lambda>i. f (xs ! i)) [0..<length xs] = map f xs"
    by (rule nth_equalityI) simp_all
  then show ?thesis by simp
qed

lemma lines_eq_leaves:
  "one_line_tree v \<Longrightarrow> length (split nl (formatResult v)) = leaves v"
proof (induction v)
  case (Arr xs)
  then have ne: "xs \<noteq> []" and all: "\<forall>x \<in> set xs. one_line_tree x"
    by (simp_all add: list_all_iff)
  have each: "\<forall>x \<in> set xs. length (split nl (formatResult x)) = leaves x"
    using Arr.IH all by blast
  have "length (split nl (formatResult (Arr xs)))
          = sum_list (map (\<lambda>i. length (split nl (formatResult (xs ! i)))) [0..<length xs])"
    unfolding split_formatResult_Arr [OF ne]
    by (simp add: length_concat comp_def length_split_prefixed
          del: split.simps append_assoc formatResult.simps)
  also have "\<dots> = sum_list (map (\<lambda>x. length (split nl (formatResult x))) xs)"
    by (rule sum_list_nth_upt)
  also have "\<dots> = sum_list (map leaves xs)"
    using each by (simp cong: map_cong)
  finally show ?case by simp
next
  case (Str s)
  then have "nl \<notin> set ([dq] @ s @ [dq])" by (simp add: dq_def nl_def)
  from split_no_sep [OF this, of "[]"] show ?case by simp
next
  case (Num n)
  have "nl \<notin> set (''(integer) '' @ number_to_string n)"
    using number_to_string_no_nl [of n] by (simp add: nl_def)
  from split_no_sep [OF this, of "[]"] show ?case by (simp del: split.simps(2))
next
  case Null
  then show ?case by simp
next
  case Undefined
  then show ?case by simp
next
  case (Bool b)
  then show ?case by simp
next
  case (Obj kvs)
  then show ?case by simp
qed

lemma concat_nth_block_start:
  "i < length xss \<Longrightarrow> xss ! i \<noteq> [] \<Longrightarrow>
     concat xss ! (sum_list (map length (take i xss))) = hd (xss ! i)"
proof (induction xss arbitrary: i)
  case Nil
  then show ?case by simp
next
  case (Cons xs xss)
  show ?case
  proof (cases i)
    case 0
    with Cons.prems show ?thesis by (simp add: nth_append hd_conv_nth)
  next
    case (Suc j)
    with Cons.prems have "j < length xss" and "xss ! j \<noteq> []" by simp_all
    from Cons.IH [OF this] Suc show ?thesis by (simp add: nth_append)
  qed
qed

text \<open>
  Claim C6, amended. For every array whose leaves are numbers or strings without a line
  feed, and in which every array (itself included) is non-empty, the number of lines of
  the rendering is the number of leaves, and for each top-level element \<open>i\<close> (counted from
  0) the line on which its block begins, which is the line after those of the elements
  before it, starts with the index \<open>i + 1\<close> followed by \<^verbatim>\<open>) \<close>.
\<close>

theorem sequence_lines_and_numbering:
  assumes tree: "one_line_tree (Arr xs)"
  shows "line_count (formatResult (Arr xs)) = leaves (Arr xs)
    \<and> (\<forall>i < length xs.
          startsWith (split nl (formatResult (Arr xs)) ! sum_list (map leaves (take i xs)))
            (number_to_string (int i + 1) @ '') ''))"
proof -
  from tree have ne: "xs \<noteq> []" and all: "\<forall>x \<in> set xs. one_line_tree x"
    by (simp_all add: list_all_iff)
  let ?B = "\<lambda>i. split nl ((number_to_string (int i + 1) @ '') '') @ formatResult (xs ! i))"
  let ?blocks = "map ?B [0..<length xs]"
  have lines: "split nl (formatResult (Arr xs)) = concat ?blocks"
    by (rule split_formatResult_Arr [OF ne])
  have count: "line_count (formatResult (Arr xs)) = leaves (Arr xs)"
    unfolding line_count_def using tree by (rule lines_eq_leaves)
  have lens: "map length ?blocks = map leaves xs"
  proof (rule nth_equalityI)
    show "length (map length ?blocks) = length (map leaves xs)" by simp
  next
    fix i assume "i < length (map length ?blocks)"
    then have i: "i < length xs" by simp
    then have "one_line_tree (xs ! i)" using all by simp
    then have "length (split nl (formatResult (xs ! i))) = leaves (xs ! i)"
      by (rule lines_eq_leaves)
    with i show "map length ?blocks ! i = map leaves xs ! i"
      by (simp add: length_split_prefixed del: split.simps append_assoc)
  qed
  have start: "startsWith (split nl (formatResult (Arr xs)) ! sum_list (map leaves (take i xs)))
                 (number_to_string (int i + 1) @ '') '')"
    if i: "i < length xs" for i
  proof -
    from i have bi: "?blocks ! i = ?B i" by simp
    have nonempty: "?blocks ! i \<noteq> []"
      unfolding bi by (rule split_not_Nil)
    have "sum_list (map leaves (take i xs)) = sum_list (map length (take i ?blocks))"
      by (simp only: take_map [symmetric] lens)
    then have "split nl (formatResult (Arr xs)) ! sum_list (map leaves (take i xs))
                 = hd (?blocks ! i)"
      using concat_nth_block_start [of i ?blocks] i nonempty by (simp only: lines length_map length_upt) simp
    also have "\<dots> = hd (?B i)"
      by (simp only: bi)
    also have "\<dots> = (number_to_string (int i + 1) @ '') '') @ hd (split nl (formatResult (xs ! i)))"
      by (simp only: split_prefixed list.sel)
    finally show ?thesis by (simp only: startsWith_append)
  qed
  from count start show ?thesis by blast
qed

text \<open>
  Claim C6, as stated, fails: a string is rendered as it is, so a string leaf that holds
  a line feed takes two lines. The array with the one element \<^verbatim>\<open>a\<close>, line feed, \<^verbatim>\<open>b\<close> has
  one leaf and a rendering of two lines.
\<close>

theorem text_with_line_feed_breaks_count:
  "text_int_tree (Arr [Str ''a\<newline>b''])
   \<and> leaves (Arr [Str ''a\<newline>b'']) = 1
   \<and> line_count (formatResult (Arr [Str ''a\<newline>b''])) = 2"
  by (simp add: line_count_def enumerate_simps number_to_string_small dq_def nl_def)

theorem sequence_lines_and_numbering_witness:
  "one_line_tree (Arr [Str ''a'', Arr [Str ''b'', Num 7]])
   \<and> line_count (formatResult (Arr [Str ''a'', Arr [Str ''b'', Num 7]])) = 3
   \<and> leaves (Arr [Str ''a'', Arr [Str ''b'', Num 7]]) = 3"
proof -
  have h: "one_line_tree (Arr [Str ''a'', Arr [Str ''b'', Num 7]])"
    by (simp add: nl_def)
  have l: "leaves (Arr [Str ''a'', Arr [Str ''b'', Num 7]]) = 3"
    by simp
  show ?thesis
    using h l sequence_lines_and_numbering [OF h] by simp
qed

text \<open>
  Claim C5. A non-empty array is rendered as its elements joined by line feeds, element
  \<open>i\<close> (counted from 0) as the index \<open>i + 1\<close>, then \<^verbatim>\<open>) \<close>, then the rendering of the element.
  An element that is itself a non-empty array is rendered in full first, its own
  numbering starting at 1, and then prefixed with the outer index. The array of \<^verbatim>\<open>a\<close> and
  the array of \<^verbatim>\<open>b\<close> and \<^verbatim>\<open>c\<close> gives the three lines \<^verbatim>\<open>1) "a"\<close>, \<^verbatim>\<open>2) 1) "b"\<close> and \<^verbatim>\<open>2) "c"\<close>.
\<close>

theorem format_sequence_indexed:
  assumes "xs \<noteq> []"
  shows "formatResult (Arr xs) =
           join [nl] (map (\<lambda>i. number_to_string (int i + 1) @ '') '' @ formatResult (xs ! i))
                          [0..<length xs])
    \<and> (\<forall>i ys. i < length xs \<and> xs ! i = Arr ys \<and> ys \<noteq> [] \<longrightarrow>
          startsWith (number_to_string (int i + 1) @ '') '' @ formatResult (xs ! i))
            (number_to_string (int i + 1) @ '') 1) ''))
    \<and> split nl (formatResult (Arr [Str ''a'', Arr [Str ''b'', Str ''c'']]))
        = [''1) '' @ [dq] @ ''a'' @ [dq],
           ''2) 1) '' @ [dq] @ ''b'' @ [dq],
           ''2) '' @ [dq] @ ''c'' @ [dq]]"
proof -
  have inner: "startsWith (number_to_string (int i + 1) @ '') '' @ formatResult (xs ! i))
                 (number_to_string (int i + 1) @ '') 1) '')"
    if "xs ! i = Arr ys" and "ys \<noteq> []" for i ys
  proof -
    from formatResult_Arr_first [OF that(2)] obtain r
      where "formatResult (Arr ys) = ''1) '' @ formatResult (hd ys) @ r" by blast
    then have "number_to_string (int i + 1) @ '') '' @ formatResult (xs ! i)
                 = (number_to_string (int i + 1) @ '') 1) '') @ formatResult (hd ys) @ r"
      by (simp add: that(1))
    then show ?thesis by (simp only: startsWith_append)
  qed
  have ex: "split nl (formatResult (Arr [Str ''a'', Arr [Str ''b'', Str ''c'']]))
        = [''1) '' @ [dq] @ ''a'' @ [dq],
           ''2) 1) '' @ [dq] @ ''b'' @ [dq],
           ''2) '' @ [dq] @ ''c'' @ [dq]]"
    by (simp add: enumerate_simps number_to_string_small dq_def nl_def)
  from formatResult_Arr [OF assms] inner ex show ?thesis by blast
qed

theorem format_sequence_indexed_witness:
  "[Str ''a'', Arr [Str ''b'', Str ''c'']] \<noteq> []
   \<and> formatResult (Arr [Str ''a'', Arr [Str ''b'', Str ''c'']])
       = ''1) '' @ [dq] @ ''a'' @ [dq] @ [nl] @ ''2) 1) '' @ [dq] @ ''b'' @ [dq] @ [nl]
         @ ''2) '' @ [dq] @ ''c'' @ [dq]"
proof -
  have h: "[Str ''a'', Arr [Str ''b'', Str ''c'']] \<noteq> []" by simp
  show ?thesis
    using format_sequence_indexed [OF h]
    by (simp add: enumerate_simps number_to_string_small)
qed

subsection \<open>The formatter on a bounded call stack\<close>

lemma sequence_results_map:
  assumes "\<forall>x \<in> set xs. f x = (if P x then Inr (g x) else Inl RangeError)"
  shows "sequence_results (map f xs)
           = (if \<forall>x \<in> set xs. P x then Inr (map g xs) else Inl RangeError)"
  using assms
proof (induction xs)
  case Nil
  show ?case by simp
next
  case (Cons x xs)
  then have IH: "sequence_results (map f xs)
           = (if \<forall>x \<in> set xs. P x then Inr (map g xs) else Inl RangeError)"
    and x: "f x = (if P x then Inr (g x) else Inl RangeError)"
    by simp_all
  show ?case by (simp add: IH x)
qed

lemma foldr_max_less: "foldr max ys (0::nat) < k \<longleftrightarrow> 0 < k \<and> (\<forall>y \<in> set ys. y < k)"
  by (induction ys) auto

lemma nesting_Arr_less:
  "nesting (Arr xs) < Suc k \<longleftrightarrow> (\<forall>x \<in> set xs. nesting x < k)"
proof (cases xs)
  case Nil
  then show ?thesis by simp
next
  case (Cons y ys)
  then show ?thesis by (auto simp: foldr_max_less)
qed

lemma nesting_Obj_less:
  "nesting (Obj kvs) < Suc k
     \<longleftrightarrow> (\<forall>p \<in> set (filter (\<lambda>(key, v). v \<noteq> Undefined) kvs). nesting (snd p) < k)"
proof (cases "filter (\<lambda>(key, v). v \<noteq> Undefined) kvs")
  case Nil
  then show ?thesis by simp
next
  case (Cons y ys)
  then show ?thesis by (auto simp: foldr_max_less case_prod_unfold)
qed

lemma serializeJSONProperty_stack_eq:
  "serializeJSONProperty_stack s indent v
     = (if nesting v < s then Inr (serializeJSONProperty indent v) else Inl RangeError)"
proof (induction s arbitrary: indent v)
  case 0
  show ?case by simp
next
  case (Suc k)
  show ?case
  proof (cases v)
    case (Arr xs)
    have "sequence_results (map (serializeJSONProperty_stack k (indent @ ''  '')) xs)
            = (if \<forall>x \<in> set xs. nesting x < k
               then Inr (map (serializeJSONProperty (indent @ ''  '')) xs)
               else Inl RangeError)"
      by (rule sequence_results_map) (simp add: Suc.IH)
    then show ?thesis
      unfolding Arr nesting_Arr_less by (simp add: Let_def del: nesting.simps)
  next
    case (Obj kvs)
    let ?props = "filter (\<lambda>(key, v). v \<noteq> Undefined) kvs"
    let ?f = "\<lambda>(key, v). case serializeJSONProperty_stack k (indent @ ''  '') v of
                          Inl e \<Rightarrow> Inl e
                        | Inr str \<Rightarrow> Inr (json_quote key @ '': '' @ str)"
    let ?g = "\<lambda>(key, v). json_quote key @ '': '' @ serializeJSONProperty (indent @ ''  '') v"
    have "sequence_results (map ?f ?props)
            = (if \<forall>p \<in> set ?props. nesting (snd p) < k then Inr (map ?g ?props)
               else Inl RangeError)"
      by (rule sequence_results_map) (auto simp: Suc.IH)
    then show ?thesis
      unfolding Obj nesting_Obj_less by (auto simp add: Let_def simp del: nesting.simps)
  qed simp_all
qed

lemma formatResult_stack_eq:
  "formatResult_stack s v
     = (if nesting v < s then Inr (formatResult v) else Inl RangeError)"
proof (induction s arbitrary: v)
  case 0
  show ?case by simp
next
  case (Suc k)
  show ?case
  proof (cases v)
    case (Arr xs)
    let ?f = "\<lambda>(index, item). case formatResult_stack k item of
                          Inl e \<Rightarrow> Inl e
                        | Inr str \<Rightarrow> Inr (number_to_string (int index + 1) @ '') '' @ str)"
    let ?g = "\<lambda>(index, item). number_to_string (int index + 1) @ '') '' @ formatResult item"
    have seq: "sequence_results (map ?f (enumerate 0 xs))
            = (if \<forall>p \<in> set (enumerate 0 xs). nesting (snd p) < k
               then Inr (map ?g (enumerate 0 xs))
               else Inl RangeError)"
      by (rule sequence_results_map) (auto simp: Suc.IH)
    have "snd ` set (enumerate 0 xs) = set xs"
      by (metis list.set_map map_snd_enumerate)
    then have all: "(\<forall>p \<in> set (enumerate 0 xs). nesting (snd p) < k)
                 \<longleftrightarrow> (\<forall>x \<in> set xs. nesting x < k)"
      by (metis (no_types, lifting) ball_imageD imageI image_iff)
    show ?thesis
      unfolding Arr nesting_Arr_less
      by (cases "xs = []") (simp_all add: seq all del: nesting.simps)
  next
    case (Obj kvs)
    show ?thesis
      unfolding Obj
      by (simp only: formatResult_stack.simps formatResult.simps JSON_stringify_2_def
            serializeJSONProperty_stack_eq)
  qed simp_all
qed

lemma nesting_nested: "nesting (nested k) = k"
  by (induction k) simp_all

lemma nested_exceeds_stack: "formatResult_stack s (nested s) = Inl RangeError"
  by (simp add: formatResult_stack_eq nesting_nested)

text \<open>
  Claim C7, as stated, fails: the formatter has no guard on the depth of nesting, so a
  reply nested deeper than the call stack admits makes it raise \<^verbatim>\<open>RangeError\<close>. On a stack
  that admits 10000 nested activations the array nested 10000 deep is such a reply (and
  so is the array nested \<open>s\<close> deep on a stack that admits \<open>s\<close>, for every \<open>s\<close>).
\<close>

theorem deep_nesting_raises_RangeError:
  "formatResult_stack 10000 (nested 10000) = Inl RangeError"
  by (rule nested_exceeds_stack)

text \<open>
  Claim C7, amended. The formatter is a function of the reply alone, and it returns a
  rendering without raising an error exactly for the replies whose nesting is below what
  the call stack admits; for a reply nested deeper it raises \<^verbatim>\<open>RangeError\<close>. The rendering
  is the one that the tests of the source select, taken in their order, and a value that
  passes none of them (a boolean) is rendered by \<^verbatim>\<open>String\<close>.
\<close>

theorem format_within_stack:
  "formatResult_stack stack v
     = (if nesting v < stack then Inr (formatResult v) else Inl RangeError)
   \<and> formatResult v =
     (if v = Null \<or> v = Undefined then ''(nil)''
      else if js_typeof v = ''string'' then [dq] @ js_String v @ [dq]
      else if js_typeof v = ''number'' then ''(integer) '' @ js_String v
      else if isArray v then
        (if length (elements v) = 0 then ''(empty array)''
         else join [nl]
                (map (\<lambda>(index, item). number_to_string (int index + 1) @ '') '' @ formatResult item)
                     (enumerate 0 (elements v))))
      else if js_typeof v = ''object'' then JSON_stringify_2 v
      else js_String v)
   \<and> formatResult_stack (Suc stack) (Bool True) = Inr ''true''
   \<and> formatResult_stack (Suc stack) (Bool False) = Inr ''false''"
proof -
  have "formatResult v =
     (if v = Null \<or> v = Undefined then ''(nil)''
      else if js_typeof v = ''string'' then [dq] @ js_String v @ [dq]
      else if js_typeof v = ''number'' then ''(integer) '' @ js_String v
      else if isArray v then
        (if length (elements v) = 0 then ''(empty array)''
         else join [nl]
                (map (\<lambda>(index, item). number_to_string (int index + 1) @ '') '' @ formatResult item)
                     (enumerate 0 (elements v))))
      else if js_typeof v = ''object'' then JSON_stringify_2 v
      else js_String v)"
    by (cases v) simp_all
  then show ?thesis
    by (simp add: formatResult_stack_eq)
qed

theorem format_within_stack_witness:
  "formatResult_stack 3 (Arr [Bool True, Arr [Str ''b'', Num 7]])
     = Inr (''1) true'' @ [nl] @ ''2) 1) '' @ [dq] @ ''b'' @ [dq] @ [nl] @ ''2) (integer) 7'')
   \<and> formatResult_stack 2 (Arr [Bool True, Arr [Str ''b'', Num 7]]) = Inl RangeError"
  using format_within_stack [of 3 "Arr [Bool True, Arr [Str ''b'', Num 7]]"]
    format_within_stack [of 2 "Arr [Bool True, Arr [Str ''b'', Num 7]]"]
  by (simp add: enumerate_simps number_to_string_small)

text \<open>
  Claim C10. An object is rendered as \<^verbatim>\<open>JSON.stringify(value, null, 2)\<close>: the empty braces
  when no property is left, otherwise one property per line, indented by two spaces, in
  the order of the object's properties.
\<close>

theorem format_object_json:
  "formatResult (Obj kvs) = JSON_stringify_2 (Obj kvs)
   \<and> JSON_stringify_2 (Obj kvs) =
       (if filter (\<lambda>(k, v). v \<noteq> Undefined) kvs = [] then ''{}''
        else ''{'' @ [nl] @ ''  ''
             @ join ('','' @ [nl] @ ''  '')
                 (map (\<lambda>(k, v). json_quote k @ '': '' @ serializeJSONProperty ''  '' v)
                      (filter (\<lambda>(k, v). v \<noteq> Undefined) kvs))
             @ [nl] @ ''}'')
   \<and> formatResult (Obj [(''b'', Num 1), (''a'', Arr [Str ''x'']), (''c'', Undefined)])
       = ''{'' @ [nl] @ ''  '' @ [dq] @ ''b'' @ [dq] @ '': 1,'' @ [nl]
         @ ''  '' @ [dq] @ ''a'' @ [dq] @ '': ['' @ [nl]
         @ ''    '' @ [dq] @ ''x'' @ [dq] @ [nl]
         @ ''  ]'' @ [nl] @ ''}''"
  by (simp add: JSON_stringify_2_def Let_def json_quote_def json_escape_def
        number_to_string_small is_finite_number_safe dq_def nl_def bs_def)

end
